theory Spec2Isabelle
  imports Main "HOL-Library.Word" "HOL-Library.Sublist"
begin

section \<open>Bounded log buffer (\<^verbatim>\<open>makeRingBuffer\<close> in src/jobs.js)\<close>

text \<open>
  A Node \<^verbatim>\<open>Buffer\<close> is a sequence of bytes. The closure returned by
  \<^verbatim>\<open>makeRingBuffer(maxBytes)\<close> owns one mutable variable \<^verbatim>\<open>buffer\<close>;
  the record below holds the captured \<^verbatim>\<open>maxBytes\<close> and that variable, and each
  method takes the record and returns the updated one.
\<close>

type_synonym byte = "8 word"

record ring_buffer =
  maxBytes :: nat
  buffer :: "byte list"

definition makeRingBuffer :: "nat \<Rightarrow> ring_buffer" where
  "makeRingBuffer m = \<lparr>maxBytes = m, buffer = []\<rparr>"

text \<open>
  \<^verbatim>\<open>append(chunk)\<close>: an empty chunk returns at once; otherwise the chunk is
  concatenated and, when the result is longer than \<^verbatim>\<open>maxBytes\<close>, only the last
  \<^verbatim>\<open>maxBytes\<close> bytes are kept (\<^verbatim>\<open>buffer.slice(buffer.length - maxBytes)\<close>).
\<close>

definition append :: "ring_buffer \<Rightarrow> byte list \<Rightarrow> ring_buffer" where
  "append rb chunk =
     (if chunk = [] then rb
      else let b = buffer rb @ chunk in
           if length b > maxBytes rb
           then rb\<lparr>buffer := drop (length b - maxBytes rb) b\<rparr>
           else rb\<lparr>buffer := b\<rparr>)"

definition size_rb :: "ring_buffer \<Rightarrow> nat" where
  "size_rb rb = length (buffer rb)"

text \<open>A sequence of \<^verbatim>\<open>append\<close> calls on a fresh buffer, in order.\<close>

definition append_all :: "nat \<Rightarrow> byte list list \<Rightarrow> ring_buffer" where
  "append_all c chunks = foldl append (makeRingBuffer c) chunks"

section \<open>Argument sanitizer (\<^verbatim>\<open>sanitizeArgs\<close> in the server module)\<close>

text \<open>
  The elements of \<^verbatim>\<open>inputArgs\<close> are JavaScript values; the loop skips every
  element that is not a string (\<^verbatim>\<open>typeof a !== 'string'\<close>).
\<close>

datatype js_value = JString string | JNotString

text \<open>
  The three \<^verbatim>\<open>throw new Error(...)\<close> sites, each carrying the offending token:
  \<^verbatim>\<open>unsafe token detected\<close>, \<^verbatim>\<open>flag not allowed\<close>, \<^verbatim>\<open>flag disallowed\<close>.
\<close>

datatype sanitize_error = UnsafeToken string | FlagNotAllowed string | FlagDisallowed string

definition ALLOWED_FLAGS :: "string list" where
  "ALLOWED_FLAGS =
     [''--recipe'', ''--instructions'', ''-i'', ''--text'', ''-t'', ''--no-session'', ''--name'',
      ''-n'', ''--resume'', ''-r'', ''--path'', ''-p'', ''--max-turns'', ''--explain'', ''--debug'',
      ''--provider'', ''--model'', ''--params'', ''--sub-recipe'', ''--with-builtin'',
      ''--verbose'', ''-v'', ''--format'', ''-f'', ''--ascending'', ''--id'', ''-n'', ''--name'',
      ''--path'', ''-p'', ''--output'', ''-o'']"

definition DISALLOWED_FLAGS :: "string list" where
  "DISALLOWED_FLAGS = [''--interactive'', ''-s'']"

text \<open>
  The character class of the regular expression \<^verbatim>\<open>/[`|;&<>$\\]/\<close>: backtick, pipe,
  semicolon, ampersand, angle brackets, dollar sign, backslash.
\<close>

definition shell_meta :: "char list" where
  "shell_meta = [CHR 0x60, CHR ''|'', CHR '';'', CHR ''&'', CHR ''<'', CHR ''>'', CHR ''$'', CHR 0x5C]"

definition has_meta :: "string \<Rightarrow> bool" where
  "has_meta a = list_ex (\<lambda>c. c \<in> set shell_meta) a"

text \<open>\<^verbatim>\<open>a.startsWith('-')\<close>\<close>

fun is_flag :: "string \<Rightarrow> bool" where
  "is_flag [] = False"
| "is_flag (c # _) = (c = CHR ''-'')"

text \<open>
  The \<^verbatim>\<open>for\<close> loop of \<^verbatim>\<open>sanitizeArgs\<close>, with \<^verbatim>\<open>out\<close> as accumulator; a
  \<^verbatim>\<open>throw\<close> ends the loop with the error.
\<close>

fun sanitize_loop :: "js_value list \<Rightarrow> string list \<Rightarrow> sanitize_error + string list" where
  "sanitize_loop [] out = Inr out"
| "sanitize_loop (JNotString # rest) out = sanitize_loop rest out"
| "sanitize_loop (JString a # rest) out =
     (if has_meta a then Inl (UnsafeToken a)
      else if is_flag a \<and> \<not> a \<in> set ALLOWED_FLAGS then Inl (FlagNotAllowed a)
      else if a \<in> set DISALLOWED_FLAGS then Inl (FlagDisallowed a)
      else sanitize_loop rest (out @ [a]))"

text \<open>A token passes when neither the metacharacter check nor the allowlist check rejects it.\<close>

definition token_ok :: "string \<Rightarrow> bool" where
  "token_ok a = (\<not> has_meta a \<and> (is_flag a \<longrightarrow> a \<in> set ALLOWED_FLAGS))"

definition sanitizeArgs :: "js_value list \<Rightarrow> sanitize_error + string list" where
  "sanitizeArgs inputArgs = sanitize_loop inputArgs []"

section \<open>Job registry and process supervisor (src/jobs.js)\<close>

datatype job_status = Running | Completed | Failed | Canceled

text \<open>
  The object stored in the \<^verbatim>\<open>jobs\<close> map. \<^verbatim>\<open>pid\<close> is \<^verbatim>\<open>child.pid\<close>, which is
  \<^verbatim>\<open>undefined\<close> (\<open>None\<close>) when the process could not be spawned. Timestamps are the
  readings of the clock. Of the \<^verbatim>\<open>child\<close> handle the field \<open>child_alive\<close> records the
  one thing the registry depends on: whether its \<^verbatim>\<open>exit\<close> event is still to come.
\<close>

record job =
  job_id :: string
  pid :: "nat option"
  status :: job_status
  command :: string
  args :: "string list"
  cwd :: string
  startedAt :: nat
  finishedAt :: "nat option"
  exitCode :: "int option"
  stdout :: ring_buffer
  stderr :: ring_buffer
  child_alive :: bool

text \<open>The module state: the \<^verbatim>\<open>jobs\<close> map and the \<^verbatim>\<open>runningJobId\<close> slot.\<close>

record registry =
  jobs :: "string \<rightharpoonup> job"
  runningJobId :: "string option"

definition init_registry :: registry where
  "init_registry = \<lparr>jobs = Map.empty, runningJobId = None\<rparr>"

text \<open>\<^verbatim>\<open>if (runningJobId)\<close>: \<^verbatim>\<open>null\<close> and the empty string are falsy.\<close>

definition truthy :: "string option \<Rightarrow> bool" where
  "truthy r = (case r of None \<Rightarrow> False | Some i \<Rightarrow> i \<noteq> [])"

text \<open>
  \<^verbatim>\<open>startJob\<close> throws the \<^verbatim>\<open>BUSY\<close> error of its first test, or whatever
  \<^verbatim>\<open>spawn\<close> throws: the call of \<^verbatim>\<open>spawn\<close> is in no \<^verbatim>\<open>try\<close>, and Node throws
  from it at once for a request it rejects (a NUL byte in the command, an argument or
  the directory, for one).
\<close>

datatype start_error = BUSY | SPAWN_THROWN

text \<open>
  What \<^verbatim>\<open>spawn\<close> does is up to Node and the operating system: it returns a child,
  whose \<^verbatim>\<open>pid\<close> is \<^verbatim>\<open>undefined\<close> (\<open>None\<close>) when the process could not be started
  (that failure is reported later, by the \<^verbatim>\<open>error\<close> event), or it throws.
\<close>

datatype spawn_outcome = Spawned "nat option" | SpawnThrows

text \<open>The arguments of \<^verbatim>\<open>startJob\<close> that end up in the job.\<close>

record job_request =
  req_command :: string
  req_args :: "string list"
  req_cwd :: string
  req_logMaxBytes :: nat

text \<open>
  \<^verbatim>\<open>startJob\<close>. What the environment supplies is passed in: \<open>new_id\<close> is the result
  of \<^verbatim>\<open>newId()\<close>, \<open>child\<close> what \<^verbatim>\<open>spawn\<close> does, \<open>now\<close> the clock. When
  \<^verbatim>\<open>spawn\<close> throws, nothing has been stored yet: \<^verbatim>\<open>jobs.set\<close> and the assignment
  to \<^verbatim>\<open>runningJobId\<close> come after it. The result is the thrown error or the returned
  \<^verbatim>\<open>{ jobId, pid, startedAt }\<close>, together with the new module state.
\<close>

definition startJob ::
  "registry \<Rightarrow> string \<Rightarrow> spawn_outcome \<Rightarrow> nat \<Rightarrow> job_request
     \<Rightarrow> (start_error + string \<times> nat option \<times> nat) \<times> registry" where
  "startJob s new_id child now rq =
     (if truthy (runningJobId s) then (Inl BUSY, s)
      else case child of
        SpawnThrows \<Rightarrow> (Inl SPAWN_THROWN, s)
      | Spawned child_pid \<Rightarrow>
          let j = \<lparr>job_id = new_id, pid = child_pid, status = Running,
                   command = req_command rq, args = req_args rq, cwd = req_cwd rq,
                   startedAt = now, finishedAt = None, exitCode = None,
                   stdout = makeRingBuffer (req_logMaxBytes rq),
                   stderr = makeRingBuffer (req_logMaxBytes rq),
                   child_alive = True\<rparr>
          in (Inr (new_id, child_pid, now),
              s\<lparr>jobs := (jobs s)(new_id \<mapsto> j), runningJobId := Some new_id\<rparr>))"

text \<open>
  \<^verbatim>\<open>process.kill(job.child.pid, signal)\<close> either returns or throws. It throws for an
  \<^verbatim>\<open>undefined\<close> pid; for a pid, whether the signal is delivered is up to the
  operating system (\<open>delivered\<close>).
\<close>

definition process_kill :: "nat option \<Rightarrow> bool \<Rightarrow> bool" where
  "process_kill p delivered = (case p of None \<Rightarrow> False | Some _ \<Rightarrow> delivered)"

datatype stop_reason = not_found | not_running | kill_failed

text \<open>
  \<^verbatim>\<open>stopJob\<close>: \<open>Inr ()\<close> is \<^verbatim>\<open>{ ok: true }\<close>, \<open>Inl r\<close> is
  \<^verbatim>\<open>{ ok: false, reason: r }\<close>.
\<close>

definition stopJob ::
  "registry \<Rightarrow> string \<Rightarrow> bool \<Rightarrow> nat \<Rightarrow> (stop_reason + unit) \<times> registry" where
  "stopJob s jobId delivered now =
     (case jobs s jobId of
        None \<Rightarrow> (Inl not_found, s)
      | Some j \<Rightarrow>
          if status j \<noteq> Running then (Inl not_running, s)
          else if process_kill (pid j) delivered
          then (Inr (),
                s\<lparr>jobs := (jobs s)(jobId \<mapsto> j\<lparr>status := Canceled, finishedAt := Some now\<rparr>),
                  runningJobId := None\<rparr>)
          else (Inl kill_failed, s))"

text \<open>
  The handler \<^verbatim>\<open>child.on('exit', (code) => ...)\<close> installed by \<^verbatim>\<open>startJob\<close> for the
  job stored under \<open>i\<close>; \<open>code\<close> is \<^verbatim>\<open>null\<close> (\<open>None\<close>) when a signal ended the
  process.
\<close>

definition on_exit :: "registry \<Rightarrow> string \<Rightarrow> int option \<Rightarrow> nat \<Rightarrow> registry" where
  "on_exit s i code now =
     (case jobs s i of
        None \<Rightarrow> s
      | Some j \<Rightarrow>
          s\<lparr>jobs := (jobs s)(i \<mapsto> j\<lparr>exitCode := code,
                                        status := (if code = Some 0 then Completed else Failed),
                                        finishedAt := Some now,
                                        child_alive := False\<rparr>),
            runningJobId := None\<rparr>)"

text \<open>The \<^verbatim>\<open>data\<close> handlers of the two pipes.\<close>

definition on_stdout :: "registry \<Rightarrow> string \<Rightarrow> byte list \<Rightarrow> registry" where
  "on_stdout s i d =
     (case jobs s i of
        None \<Rightarrow> s
      | Some j \<Rightarrow> s\<lparr>jobs := (jobs s)(i \<mapsto> j\<lparr>stdout := append (stdout j) d\<rparr>)\<rparr>)"

definition on_stderr :: "registry \<Rightarrow> string \<Rightarrow> byte list \<Rightarrow> registry" where
  "on_stderr s i d =
     (case jobs s i of
        None \<Rightarrow> s
      | Some j \<Rightarrow> s\<lparr>jobs := (jobs s)(i \<mapsto> j\<lparr>stderr := append (stderr j) d\<rparr>)\<rparr>)"

text \<open>
  What can happen to the module, one event at a time: a call of \<^verbatim>\<open>startJob\<close> (with
  the identifier \<^verbatim>\<open>newId()\<close> draws, which is non-empty and not in use) in which
  \<^verbatim>\<open>spawn\<close> returns a child with the given pid, or in which \<^verbatim>\<open>spawn\<close> throws; a call
  of \<^verbatim>\<open>stopJob\<close>; the \<^verbatim>\<open>exit\<close> event of a child (once per child); and output
  arriving on a pipe (the \<^verbatim>\<open>error\<close> handler appends its message to stderr in the
  same way).
\<close>

datatype event =
    Start string "nat option" nat job_request
  | StartThrown string nat job_request
  | Stop string bool nat
  | Exit string "int option" nat
  | StdoutData string "byte list"
  | StderrData string "byte list"

fun step :: "registry \<Rightarrow> event \<Rightarrow> registry" where
  "step s (Start i p now rq) =
     (if i = [] \<or> jobs s i \<noteq> None then s else snd (startJob s i (Spawned p) now rq))"
| "step s (StartThrown i now rq) =
     (if i = [] \<or> jobs s i \<noteq> None then s else snd (startJob s i SpawnThrows now rq))"
| "step s (Stop i delivered now) = snd (stopJob s i delivered now)"
| "step s (Exit i code now) =
     (case jobs s i of
        None \<Rightarrow> s
      | Some j \<Rightarrow> if child_alive j then on_exit s i code now else s)"
| "step s (StdoutData i d) = on_stdout s i d"
| "step s (StderrData i d) = on_stderr s i d"

definition run :: "event list \<Rightarrow> registry" where
  "run evs = foldl step init_registry evs"

definition status_of :: "registry \<Rightarrow> string \<Rightarrow> job_status option" where
  "status_of s i = map_option status (jobs s i)"

definition demo_request :: job_request where
  "demo_request = \<lparr>req_command = ''run'', req_args = [''--text'', ''hi''], req_cwd = ''/srv/app'',
                     req_logMaxBytes = 1024\<rparr>"

section \<open>Reading the logs (\<^verbatim>\<open>read\<close>, \<^verbatim>\<open>full\<close>, \<^verbatim>\<open>streamLogs\<close>, \<^verbatim>\<open>getOutput\<close>)\<close>

text \<open>
  \<^verbatim>\<open>read\<close> and \<^verbatim>\<open>full\<close> return strings: \<^verbatim>\<open>slice.toString('utf8')\<close> and
  \<^verbatim>\<open>buffer.toString('utf8')\<close>. The decoder of Node is modelled as the UTF-8 decoder of
  the Encoding standard: bytes that do not form a sequence are replaced by U+FFFD, one
  replacement for each maximal invalid part, and a sequence cut off by the end of the
  input is replaced as well. A string is the list of its code points. The state of the
  decoder is idle, or inside a sequence with the number of continuation bytes needed
  and seen, the code point so far and the bounds for the next byte.
\<close>

datatype utf8_state = Idle | Pending nat nat nat nat nat

definition lead_byte :: "byte \<Rightarrow> nat list \<times> utf8_state" where
  "lead_byte b =
     (let n = unat b in
      if n \<le> 0x7F then ([n], Idle)
      else if 0xC2 \<le> n \<and> n \<le> 0xDF then ([], Pending 1 0 (n mod 32) 0x80 0xBF)
      else if 0xE0 \<le> n \<and> n \<le> 0xEF
        then ([], Pending 2 0 (n mod 16) (if n = 0xE0 then 0xA0 else 0x80)
                                     (if n = 0xED then 0x9F else 0xBF))
      else if 0xF0 \<le> n \<and> n \<le> 0xF4
        then ([], Pending 3 0 (n mod 8) (if n = 0xF0 then 0x90 else 0x80)
                                    (if n = 0xF4 then 0x8F else 0xBF))
      else ([0xFFFD], Idle))"

definition utf8_next :: "utf8_state \<Rightarrow> byte \<Rightarrow> nat list \<times> utf8_state" where
  "utf8_next st b =
     (case st of
        Idle \<Rightarrow> lead_byte b
      | Pending needed seen cp lower upper \<Rightarrow>
          if lower \<le> unat b \<and> unat b \<le> upper
          then (if seen + 1 = needed
                then ([cp * 64 + unat b mod 64], Idle)
                else ([], Pending needed (seen + 1) (cp * 64 + unat b mod 64) 0x80 0xBF))
          else (0xFFFD # fst (lead_byte b), snd (lead_byte b)))"

fun utf8_decode :: "utf8_state \<Rightarrow> byte list \<Rightarrow> nat list" where
  "utf8_decode st [] = (case st of Idle \<Rightarrow> [] | Pending needed seen cp lower upper \<Rightarrow> [0xFFFD])"
| "utf8_decode st (b # bs) = fst (utf8_next st b) @ utf8_decode (snd (utf8_next st b)) bs"

text \<open>The state of the decoder after a run of bytes.\<close>

fun utf8_end :: "utf8_state \<Rightarrow> byte list \<Rightarrow> utf8_state" where
  "utf8_end st [] = st"
| "utf8_end st (b # bs) = utf8_end (snd (utf8_next st b)) bs"

definition toString_utf8 :: "byte list \<Rightarrow> nat list" where
  "toString_utf8 bs = utf8_decode Idle bs"

record read_result =
  data :: "nat list"
  nextOffset :: nat
  isEnd :: bool

text \<open>
  \<^verbatim>\<open>read(offset, max)\<close>; \<^verbatim>\<open>buffer.subarray(start, end)\<close> with
  \<open>start \<le> end \<le> length\<close> is the bytes from \<open>start\<close> up to \<open>end\<close>.
\<close>

definition read :: "ring_buffer \<Rightarrow> nat \<Rightarrow> nat \<Rightarrow> read_result" where
  "read rb offset mx =
     (let start = min offset (length (buffer rb));
          stop = min (start + mx) (length (buffer rb));
          slice = take (stop - start) (drop start (buffer rb))
      in \<lparr>data = toString_utf8 slice, nextOffset = stop, isEnd = (stop \<ge> length (buffer rb))\<rparr>)"

definition full :: "ring_buffer \<Rightarrow> nat list" where
  "full rb = toString_utf8 (buffer rb)"

text \<open>The \<^verbatim>\<open>which\<close> argument of \<^verbatim>\<open>streamLogs\<close>: anything but \<^verbatim>\<open>'stderr'\<close> selects stdout.\<close>

datatype stream_name = Stdout | Stderr

definition stream_of :: "job \<Rightarrow> stream_name \<Rightarrow> ring_buffer" where
  "stream_of j which = (if which = Stderr then stderr j else stdout j)"

definition streamLogs :: "registry \<Rightarrow> string \<Rightarrow> stream_name \<Rightarrow> nat \<Rightarrow> nat \<Rightarrow> read_result option" where
  "streamLogs s jobId which offset mx =
     (case jobs s jobId of
        None \<Rightarrow> None
      | Some j \<Rightarrow> Some (read (stream_of j which) offset mx))"

definition getOutput :: "registry \<Rightarrow> string \<Rightarrow> (nat list \<times> nat list \<times> int option) option" where
  "getOutput s jobId =
     (case jobs s jobId of
        None \<Rightarrow> None
      | Some j \<Rightarrow> Some (full (stdout j), full (stderr j), exitCode j))"

text \<open>
  The polling client of the claim: call \<^verbatim>\<open>streamLogs\<close> at \<open>offset\<close>, keep the
  result, and call again at the returned \<^verbatim>\<open>nextOffset\<close> until a result has
  \<^verbatim>\<open>isEnd\<close>. For an unknown job \<^verbatim>\<open>streamLogs\<close> returns \<^verbatim>\<open>null\<close> and there is
  nothing to collect. The loop need not end (with \<open>mx = 0\<close> it does not), so it is a
  partial function: \<open>None\<close> is a loop that never returns.
\<close>

partial_function (option) tail_logs ::
  "registry \<Rightarrow> string \<Rightarrow> stream_name \<Rightarrow> nat \<Rightarrow> nat \<Rightarrow> read_result list option" where
  "tail_logs s jobId which mx offset =
     (case streamLogs s jobId which offset mx of
        None \<Rightarrow> Some []
      | Some r \<Rightarrow>
          if isEnd r then Some [r]
          else Option.bind (tail_logs s jobId which mx (nextOffset r)) (\<lambda>rs. Some (r # rs)))"

text \<open>
  The buffer cut into consecutive slices of \<open>mx\<close> bytes, the last one holding what
  is left (the whole buffer when \<open>mx = 0\<close>).
\<close>

function chunks_of :: "nat \<Rightarrow> byte list \<Rightarrow> byte list list" where
  "chunks_of mx bs =
     (if mx = 0 \<or> length bs \<le> mx then [bs] else take mx bs # chunks_of mx (drop mx bs))"
  by pat_completeness auto
termination
  by (relation "measure (\<lambda>(mx, bs). length bs)") auto

declare chunks_of.simps [simp del]

text \<open>In every state the module reaches, a running job has no finish timestamp.\<close>


definition running_unfinished :: "registry \<Rightarrow> bool" where
  "running_unfinished s =
     (\<forall>i j. jobs s i = Some j \<longrightarrow> status j = Running \<longrightarrow> finishedAt j = None)"

section \<open>Paths (\<^verbatim>\<open>node:path\<close>, POSIX)\<close>

text \<open>
  A path is a string. \<^verbatim>\<open>path.join\<close>, \<^verbatim>\<open>path.normalize\<close>, \<^verbatim>\<open>path.resolve\<close> and
  \<^verbatim>\<open>path.dirname\<close> are modelled as Node defines them for POSIX, where
  \<^verbatim>\<open>path.sep\<close> is \<^verbatim>\<open>/\<close>: a path is cut at the separators, the segments
  \<^verbatim>\<open>.\<close> and the empty ones are dropped, and \<^verbatim>\<open>..\<close> removes the segment before
  it (\<open>norm_step\<close>, the body of the loop of Node's \<^verbatim>\<open>normalizeString\<close>). \<open>wd\<close> is
  the working directory of the process, which \<^verbatim>\<open>path.resolve\<close> puts in front of a
  relative path. \<open>path_key\<close> is the list of segments of the resolved path; the file
  system below is indexed by it.
\<close>

fun split_sep :: "string \<Rightarrow> string list" where
  "split_sep [] = [[]]"
| "split_sep (c # cs) =
     (if c = CHR ''/'' then [] # split_sep cs
      else (case split_sep cs of [] \<Rightarrow> [[c]] | s # ss \<Rightarrow> (c # s) # ss))"

fun join_sep :: "string list \<Rightarrow> string" where
  "join_sep [] = []"
| "join_sep [s] = s"
| "join_sep (s # t # ss) = s @ CHR ''/'' # join_sep (t # ss)"

definition norm_step :: "bool \<Rightarrow> string list \<Rightarrow> string \<Rightarrow> string list" where
  "norm_step allowAboveRoot res seg =
     (if seg = [] \<or> seg = ''.'' then res
      else if seg = ''..''
        then (if res \<noteq> [] \<and> last res \<noteq> ''..'' then butlast res
              else if allowAboveRoot then res @ [''..''] else res)
      else res @ [seg])"

definition normalizeString :: "string \<Rightarrow> bool \<Rightarrow> string list" where
  "normalizeString p allowAboveRoot = foldl (norm_step allowAboveRoot) [] (split_sep p)"

definition isAbsolute :: "string \<Rightarrow> bool" where
  "isAbsolute p = (case p of [] \<Rightarrow> False | c # _ \<Rightarrow> c = CHR ''/'')"

definition path_normalize :: "string \<Rightarrow> string" where
  "path_normalize p =
     (if p = [] then ''.''
      else
        let trailingSeparator = (last p = CHR ''/'');
            q = join_sep (normalizeString p (\<not> isAbsolute p))
        in if q = [] then (if isAbsolute p then ''/'' else if trailingSeparator then ''./'' else ''.'')
           else (if isAbsolute p then ''/'' else []) @ q @ (if trailingSeparator then ''/'' else []))"

definition path_join :: "string list \<Rightarrow> string" where
  "path_join parts =
     (let joined = join_sep (filter (\<lambda>a. a \<noteq> []) parts)
      in if joined = [] then ''.'' else path_normalize joined)"

definition path_key :: "string \<Rightarrow> string \<Rightarrow> string list" where
  "path_key wd p = normalizeString (if isAbsolute p then p else wd @ CHR ''/'' # p) False"

definition path_resolve :: "string \<Rightarrow> string \<Rightarrow> string" where
  "path_resolve wd p = CHR ''/'' # join_sep (path_key wd p)"

definition path_dirname :: "string \<Rightarrow> string" where
  "path_dirname p =
     (let r = dropWhile (\<lambda>c. c \<noteq> CHR ''/'') (dropWhile (\<lambda>c. c = CHR ''/'') (rev p))
      in if length r \<le> 1 then (if isAbsolute p then ''/'' else ''.'')
         else if length r = 2 \<and> isAbsolute p then ''//''
         else rev (tl r))"

definition isSubPath :: "string \<Rightarrow> string \<Rightarrow> string \<Rightarrow> bool" where
  "isSubPath wd parent child =
     (let rp = path_resolve wd parent; rc = path_resolve wd child
      in rc = rp \<or> prefix (rp @ ''/'') rc)"

definition slug_char :: "char \<Rightarrow> bool" where
  "slug_char c =
     (let n = (of_char c :: nat) in
      (65 \<le> n \<and> n \<le> 90) \<or> (97 \<le> n \<and> n \<le> 122) \<or> (48 \<le> n \<and> n \<le> 57)
      \<or> c = CHR ''.'' \<or> c = CHR ''_'' \<or> c = CHR ''-'')"

definition branchSlug :: "string \<Rightarrow> string" where
  "branchSlug name = map (\<lambda>c. if slug_char c then c else CHR ''_'') name"

definition MAIN_BRANCH :: string where "MAIN_BRANCH = ''main''"
definition PREVIEW_PREFIX :: string where "PREVIEW_PREFIX = ''.preview''"

definition resolvePreviewRoot :: "string \<Rightarrow> string" where
  "resolvePreviewRoot homedir = path_join [homedir, ''.cache'', ''mcp-goose'', ''www'']"

definition resolveTargetDir :: "string \<Rightarrow> string \<Rightarrow> string" where
  "resolveTargetDir previewRoot branch =
     (if branch = MAIN_BRANCH then previewRoot
      else path_join [previewRoot, PREVIEW_PREFIX, branchSlug branch])"

text \<open>A segment that normalisation keeps as it is: a name.\<close>

definition good_seg :: "string \<Rightarrow> bool" where
  "good_seg s = (s \<noteq> [] \<and> s \<noteq> ''.'' \<and> s \<noteq> ''..'' \<and> CHR ''/'' \<notin> set s)"

section \<open>Branch publisher (src/publish.js)\<close>

text \<open>
  The segments of the preview root and of the target directory of a branch, as the
  lemmas below show \<^verbatim>\<open>resolvePreviewRoot\<close> and \<^verbatim>\<open>resolveTargetDir\<close> to compute them.
\<close>

definition root_key :: "string \<Rightarrow> string list" where
  "root_key homedir = normalizeString homedir False @ [''.cache'', ''mcp-goose'', ''www'']"

definition target_key :: "string \<Rightarrow> string \<Rightarrow> string list" where
  "target_key homedir branch =
     (if branch = MAIN_BRANCH then root_key homedir
      else norm_step False (root_key homedir @ [PREVIEW_PREFIX]) (branchSlug branch))"

text \<open>
  The file system: what is found at each absolute path, given by its segments. The
  working tree that is published is a value of its own (\<open>tree\<close>: what
  \<^verbatim>\<open>readdir\<close> with \<^verbatim>\<open>withFileTypes\<close> shows of it, in order), as the scope directory
  lies outside of the preview root. The errors are those of the file system calls and
  the \<^verbatim>\<open>Error('Resolved targetDir is outside of previewRoot')\<close> of the publisher. An
  operation returns the error it throws, if any, and the file system as it has become.
\<close>

datatype entry = File string | Directory

type_synonym fs = "string list \<Rightarrow> entry option"

datatype fs_error = EEXIST | ENOTDIR | EISDIR

datatype publish_error = FsError fs_error | PathEscape

datatype tree = TFile string | TLink | TDir "(string \<times> tree) list"

definition is_file :: "entry option \<Rightarrow> bool" where
  "is_file e = (case e of Some (File _) \<Rightarrow> True | _ \<Rightarrow> False)"

text \<open>
  \<^verbatim>\<open>fs.mkdirSync(dir, { recursive: true })\<close>: fails when a file is in the way, and
  otherwise makes a directory of every prefix of the path that is missing.
\<close>

definition mkdirp :: "string list \<Rightarrow> fs \<Rightarrow> fs_error option \<times> fs" where
  "mkdirp k fs =
     (if list_ex (\<lambda>p. is_file (fs p)) (butlast (prefixes k)) then (Some ENOTDIR, fs)
      else if is_file (fs k) then (Some EEXIST, fs)
      else (None, \<lambda>q. if prefix q k then Some Directory else fs q))"

definition ensureDirSync :: "string \<Rightarrow> string \<Rightarrow> fs \<Rightarrow> fs_error option \<times> fs" where
  "ensureDirSync wd dir fs = mkdirp (path_key wd dir) fs"

text \<open>
  \<^verbatim>\<open>rmDirContents\<close>: every entry of \<open>dir\<close> whose name is not in \<open>skipNames\<close> is
  removed with all below it; a missing \<open>dir\<close> (\<^verbatim>\<open>ENOENT\<close>) is not an error.
\<close>

definition rmDirContents :: "string \<Rightarrow> string \<Rightarrow> string list \<Rightarrow> fs \<Rightarrow> fs_error option \<times> fs" where
  "rmDirContents wd dir skipNames fs =
     (let d = path_key wd dir in
      case fs d of
        None \<Rightarrow> (None, fs)
      | Some (File _) \<Rightarrow> (Some ENOTDIR, fs)
      | Some Directory \<Rightarrow>
          (None, \<lambda>q. if strict_prefix d q \<and> q ! length d \<notin> set skipNames then None else fs q))"

text \<open>
  The loop of \<^verbatim>\<open>copyDir\<close> over the entries of the source directory; the name of an
  entry is one segment, so that \<^verbatim>\<open>path.join(dest, ent.name)\<close> is \<open>dest @ [n]\<close>.
  The recursive call for a directory starts with \<^verbatim>\<open>ensureDirSync\<close> of its
  destination. \<^verbatim>\<open>copyFile\<close> replaces a file and fails on a directory.
\<close>

fun copyEntries :: "(string \<times> tree) list \<Rightarrow> string list \<Rightarrow> fs \<Rightarrow> fs_error option \<times> fs" where
  "copyEntries [] dest fs = (None, fs)"
| "copyEntries ((n, t) # rest) dest fs =
     (if n = ''.git'' then copyEntries rest dest fs
      else case t of
        TDir es \<Rightarrow>
          (case mkdirp (dest @ [n]) fs of
             (Some e, fs1) \<Rightarrow> (Some e, fs1)
           | (None, fs1) \<Rightarrow>
               (case copyEntries es (dest @ [n]) fs1 of
                  (Some e, fs2) \<Rightarrow> (Some e, fs2)
                | (None, fs2) \<Rightarrow> copyEntries rest dest fs2))
      | TLink \<Rightarrow> copyEntries rest dest fs
      | TFile c \<Rightarrow>
          (case mkdirp dest fs of
             (Some e, fs1) \<Rightarrow> (Some e, fs1)
           | (None, fs1) \<Rightarrow>
               if fs1 (dest @ [n]) = Some Directory then (Some EISDIR, fs1)
               else copyEntries rest dest (fs1((dest @ [n]) \<mapsto> File c))))"

definition copyDir :: "string \<Rightarrow> (string \<times> tree) list \<Rightarrow> string \<Rightarrow> fs \<Rightarrow> fs_error option \<times> fs" where
  "copyDir wd src dest fs =
     (case ensureDirSync wd dest fs of
        (Some e, fs1) \<Rightarrow> (Some e, fs1)
      | (None, fs1) \<Rightarrow> copyEntries src (path_key wd dest) fs1)"

definition publish_url :: "string \<Rightarrow> string \<Rightarrow> string" where
  "publish_url port branch =
     (if branch = MAIN_BRANCH then ''http://localhost:'' @ port @ ''/''
      else ''http://localhost:'' @ port @ ''/'' @ PREVIEW_PREFIX @ ''/'' @ branchSlug branch @ ''/'')"

text \<open>
  The lines of the guidance document that \<^verbatim>\<open>ensureScopeReady\<close> writes, and their
  \<^verbatim>\<open>lines.join('\n')\<close>.
\<close>

definition README_LINES :: "string list" where
  "README_LINES =
     [''# Project: Website managed by Goose (Agentic AI)'',
      '''',
      ''This directory is the working tree for a website maintained entirely by Goose (an agentic AI).'',
      ''The MCP server (mcp-goose) limits Goose operations to this folder and enforces non-interactive, reproducible workflows.'',
      '''',
      ''## Goals'',
      ''- Build and maintain a fast, accessible, and responsive website.'',
      ''- Keep the project simple and transparent for humans to review.'',
      '''',
      ''## Allowed Tech & Frameworks'',
      ''- Primary: Static site using HTML, CSS, and vanilla JavaScript.'',
      ''- Optional CSS tooling: Tailwind CSS (via CDN) or lightweight utility CSS.'',
      ''- Optional JS: Minimal, framework-free; consider progressive enhancement.'',
      ''- Avoid: Server-side runtimes, heavy build systems, or frameworks unless explicitly instructed.'',
      '''',
      ''## Content & Assets'',
      ''- Prefer local assets (images, fonts).'',
      ''- If using external resources (e.g., fonts, CSS), pin versions and provide integrity where possible.'',
      ''- Optimize images for web; provide alt text and captions when relevant.'',
      '''',
      ''## Accessibility & Quality'',
      ''- Follow WCAG best practices; ensure semantic HTML.'',
      ''- Ensure keyboard navigability and sufficient color contrast.'',
      ''- Test on common viewport sizes; ensure responsive layout.'',
      ''- Avoid intrusive animations; respect reduced motion preferences.'',
      '''',
      ''## Structure'',
      ''- Use '' @ [CHR 0x60] @ ''index.html'' @ [CHR 0x60] @ '' as the entry point.'',
      ''- Organize assets under '' @ [CHR 0x60] @ ''/assets'' @ [CHR 0x60] @ '' (e.g., /assets/css, /assets/js, /assets/img).'',
      ''- Keep pages small and modular; reuse components when reasonable.'',
      '''',
      ''## Git & Workflow'',
      ''- Always work on the current branch; create feature branches if needed.'',
      ''- Commit with concise, descriptive messages.'',
      ''- Do not push to any remote from this environment.'',
      ''- Do not remove or alter files outside this scope directory.'',
      '''',
      ''## Security & Safety'',
      ''- Do not run arbitrary shell commands; operations are performed via the Goose CLI under MCP guardrails.'',
      ''- Avoid handling secrets in this repository.'',
      '''',
      ''## Deployment & Preview'',
      ''- Local previews are served by mcp-goose at http://localhost:3003/ (main) or /.preview/<branch>/.'',
      ''- Only committed changes are published to the local preview.'',
      '''',
      ''## Getting Started'',
      ''- Begin by creating a minimal index.html and supporting assets.'',
      ''- Keep the design simple and user-friendly.'']"

fun join_lines :: "string list \<Rightarrow> string" where
  "join_lines [] = []"
| "join_lines [l] = l"
| "join_lines (l # m # ls) = l @ CHR 0x0A # join_lines (m # ls)"

definition README_CONTENT :: string where
  "README_CONTENT = join_lines README_LINES"

text \<open>
  \<^verbatim>\<open>ensureScopeReady\<close>, whose failures are all swallowed. It makes the scope directory
  (with the directories on the way to it). It asks git whether the directory is in a
  work tree and, if not, has git initialise a repository there: what git leaves at and
  below \<^verbatim>\<open><scopeDir>/.git\<close> is git's business and is passed in as \<open>dotgit\<close>, the
  content of that subtree afterwards (the one before, when git has nothing to do or
  fails). It writes \<^verbatim>\<open>README.md\<close> when nothing is there under that name, which
  succeeds when the scope directory exists.
\<close>

definition ensureScopeReady :: "string \<Rightarrow> string \<Rightarrow> fs \<Rightarrow> fs \<Rightarrow> fs" where
  "ensureScopeReady wd scopeDir dotgit fs =
     (let s = path_key wd scopeDir;
          fs1 = snd (mkdirp s fs);
          fs2 = (\<lambda>q. if prefix (s @ [''.git'']) q then dotgit q else fs1 q);
          readmePath = path_key wd (path_join [scopeDir, ''README.md''])
      in if fs2 readmePath = None \<and> fs2 (butlast readmePath) = Some Directory
         then fs2(readmePath \<mapsto> File README_CONTENT)
         else fs2)"

text \<open>
  \<^verbatim>\<open>publishCurrentBranch\<close>. \<open>branch\<close> is what \<^verbatim>\<open>detectBranch\<close> returns (it asks
  git and the environment, and changes nothing); \<open>homedir\<close> is \<^verbatim>\<open>os.homedir()\<close>,
  \<open>port\<close> the port of the URL, and \<open>scope\<close> is what \<^verbatim>\<open>copyDir\<close> reads of the
  scope directory, after \<^verbatim>\<open>ensureScopeReady\<close>. The properties below hold for every
  such reading.
\<close>

definition publishCurrentBranch ::
  "string \<Rightarrow> string \<Rightarrow> string \<Rightarrow> string \<Rightarrow> fs \<Rightarrow> string \<Rightarrow> (string \<times> tree) list \<Rightarrow> fs
     \<Rightarrow> (publish_error + string \<times> string \<times> string) \<times> fs" where
  "publishCurrentBranch wd homedir port scopeDir dotgit branch scope fs =
     (let fs0 = ensureScopeReady wd scopeDir dotgit fs;
          previewRoot = resolvePreviewRoot homedir;
          targetDir = resolveTargetDir previewRoot branch
      in case ensureDirSync wd previewRoot fs0 of
           (Some e, fs1) \<Rightarrow> (Inl (FsError e), fs1)
         | (None, fs1) \<Rightarrow>
       (case ensureDirSync wd (path_dirname targetDir) fs1 of
           (Some e, fs2) \<Rightarrow> (Inl (FsError e), fs2)
         | (None, fs2) \<Rightarrow>
       (case ensureDirSync wd targetDir fs2 of
           (Some e, fs3) \<Rightarrow> (Inl (FsError e), fs3)
         | (None, fs3) \<Rightarrow>
       if \<not> isSubPath wd previewRoot targetDir then (Inl PathEscape, fs3)
       else
       (case rmDirContents wd targetDir (if branch = MAIN_BRANCH then [PREVIEW_PREFIX] else []) fs3 of
           (Some e, fs4) \<Rightarrow> (Inl (FsError e), fs4)
         | (None, fs4) \<Rightarrow>
       (case copyDir wd scope targetDir fs4 of
           (Some e, fs5) \<Rightarrow> (Inl (FsError e), fs5)
         | (None, fs5) \<Rightarrow> (Inr (branch, targetDir, publish_url port branch), fs5))))))"

definition empty_fs :: fs where
  "empty_fs = (\<lambda>q. if q = [] then Some Directory else None)"

text \<open>
  File systems to try the publisher on, each given by its entries. In \<open>demo_fs\<close> the
  scope directory \<^verbatim>\<open>/srv/app\<close> is a git repository with \<^verbatim>\<open>README.md\<close> and
  \<^verbatim>\<open>index.html\<close> and nothing is published. In \<open>published_fs\<close> the working tree of
  \<^verbatim>\<open>main\<close> is checked out, and \<^verbatim>\<open>main\<close> and \<^verbatim>\<open>feature/x\<close> are published under
  the preview root of the home directory \<^verbatim>\<open>/home/u\<close>. \<open>preview_in_tree\<close> is the
  latter with a directory \<^verbatim>\<open>.preview\<close> in the working tree of \<^verbatim>\<open>main\<close>, and
  \<open>other_checked_out\<close> is the latter with another working tree. The lists are what
  \<^verbatim>\<open>copyDir\<close> reads of these working trees, and \<open>first_tree\<close> what it reads of a
  scope directory that \<^verbatim>\<open>ensureScopeReady\<close> has just made.
\<close>

definition demo_fs :: fs where
  "demo_fs = map_of
     [([], Directory), ([''srv''], Directory), ([''srv'', ''app''], Directory),
      ([''srv'', ''app'', ''.git''], Directory),
      ([''srv'', ''app'', ''README.md''], File ''notes''),
      ([''srv'', ''app'', ''index.html''], File ''old'')]"

definition feature_tree :: "(string \<times> tree) list" where
  "feature_tree = [(''.git'', TDir []), (''README.md'', TFile ''notes''), (''index.html'', TFile ''old'')]"

definition published_fs :: fs where
  "published_fs = map_of
     [([], Directory), ([''srv''], Directory), ([''srv'', ''app''], Directory),
      ([''srv'', ''app'', ''.git''], Directory),
      ([''srv'', ''app'', ''README.md''], File ''notes''),
      ([''srv'', ''app'', ''index.html''], File ''m''),
      ([''home''], Directory), ([''home'', ''u''], Directory),
      ([''home'', ''u'', ''.cache''], Directory),
      ([''home'', ''u'', ''.cache'', ''mcp-goose''], Directory),
      ([''home'', ''u'', ''.cache'', ''mcp-goose'', ''www''], Directory),
      ([''home'', ''u'', ''.cache'', ''mcp-goose'', ''www'', ''README.md''], File ''notes''),
      ([''home'', ''u'', ''.cache'', ''mcp-goose'', ''www'', ''index.html''], File ''m''),
      ([''home'', ''u'', ''.cache'', ''mcp-goose'', ''www'', ''.preview''], Directory),
      ([''home'', ''u'', ''.cache'', ''mcp-goose'', ''www'', ''.preview'', ''feature_x''], Directory),
      ([''home'', ''u'', ''.cache'', ''mcp-goose'', ''www'', ''.preview'', ''feature_x'', ''README.md''], File ''notes''),
      ([''home'', ''u'', ''.cache'', ''mcp-goose'', ''www'', ''.preview'', ''feature_x'', ''index.html''], File ''old'')]"

definition main_tree :: "(string \<times> tree) list" where
  "main_tree = [(''.git'', TDir []), (''README.md'', TFile ''notes''), (''index.html'', TFile ''m'')]"

definition preview_in_tree :: fs where
  "preview_in_tree =
     published_fs
       ([''srv'', ''app'', ''.preview''] \<mapsto> Directory,
        [''srv'', ''app'', ''.preview'', ''feature_x''] \<mapsto> Directory,
        [''srv'', ''app'', ''.preview'', ''feature_x'', ''index.html''] \<mapsto> File ''new'')"

definition preview_tree :: "(string \<times> tree) list" where
  "preview_tree =
     [(''.git'', TDir []), (''README.md'', TFile ''notes''), (''index.html'', TFile ''m''),
      (''.preview'', TDir [(''feature_x'', TDir [(''index.html'', TFile ''new'')])])]"

definition other_checked_out :: fs where
  "other_checked_out = published_fs([''srv'', ''app'', ''index.html''] \<mapsto> File ''dd'')"

definition other_tree :: "(string \<times> tree) list" where
  "other_tree = [(''.git'', TDir []), (''README.md'', TFile ''notes''), (''index.html'', TFile ''dd'')]"

definition first_tree :: "(string \<times> tree) list" where
  "first_tree = [(''README.md'', TFile README_CONTENT)]"



section \<open>Log buffer: sliding window\<close>

lemma maxBytes_append: "maxBytes (append rb chunk) = maxBytes rb"
  by (simp add: append_def Let_def)

lemma drop_suffix_step:
  fixes s :: "'a list"
  shows "drop (length (drop (length s - c) s @ x) - c) (drop (length s - c) s @ x)
       = drop (length (s @ x) - c) (s @ x)"
proof (cases "length s \<le> c")
  case True
  then show ?thesis by simp
next
  case False
  then have len: "length (drop (length s - c) s) = c" by simp
  have "drop (length (drop (length s - c) s @ x) - c) (drop (length s - c) s @ x)
          = drop (length x) (drop (length s - c) s @ x)"
    by (simp only: length_append len add_diff_cancel_left')
  also have "\<dots> = drop (length x) (drop (length s - c) s) @ drop (length x - c) x"
    by (simp only: drop_append len)
  also have "\<dots> = drop (length s - c + length x) s @ drop (length x - c) x"
    by (simp add: add.commute)
  also have "\<dots> = drop (length (s @ x) - c) (s @ x)"
  proof -
    have e: "length (s @ x) - c = length s - c + length x" using False by simp
    have "length s - c + length x - length s = length x - c" using False by simp
    then show ?thesis by (simp only: e drop_append)
  qed
  finally show ?thesis .
qed

lemma append_window:
  assumes "buffer rb = drop (length s - maxBytes rb) s"
  shows "buffer (append rb x) = drop (length (s @ x) - maxBytes rb) (s @ x)"
proof (cases "x = []")
  case True
  then show ?thesis using assms by (simp add: append_def)
next
  case False
  have "buffer (append rb x)
          = drop (length (buffer rb @ x) - maxBytes rb) (buffer rb @ x)"
    using False by (simp add: append_def Let_def)
  then show ?thesis
    using drop_suffix_step[of s "maxBytes rb" x] by (simp only: assms)
qed

lemma foldl_append_window:
  assumes "buffer rb = drop (length s - maxBytes rb) s"
  shows "buffer (foldl append rb chunks)
           = drop (length (s @ concat chunks) - maxBytes rb) (s @ concat chunks)
         \<and> maxBytes (foldl append rb chunks) = maxBytes rb"
  using assms
proof (induction chunks arbitrary: rb s)
  case Nil
  then show ?case by simp
next
  case (Cons x xs)
  have "buffer (append rb x) = drop (length (s @ x) - maxBytes (append rb x)) (s @ x)"
    using append_window[OF Cons.prems, of x] by (simp only: maxBytes_append)
  from Cons.IH[OF this] show ?case
    by (simp add: maxBytes_append)
qed

text \<open>
  C3. For every capacity \<open>c\<close> and every finite sequence of byte chunks appended to a
  fresh log buffer of that capacity, the buffer's length is at most \<open>c\<close> and its
  content is the suffix, of length \<open>min total c\<close>, of the concatenation of all chunks.
\<close>

theorem ring_buffer_suffix:
  "size_rb (append_all c chunks) \<le> c
   \<and> size_rb (append_all c chunks) = min (length (concat chunks)) c
   \<and> buffer (append_all c chunks)
       = drop (length (concat chunks) - min (length (concat chunks)) c) (concat chunks)
   \<and> suffix (buffer (append_all c chunks)) (concat chunks)"
proof -
  have init: "buffer (makeRingBuffer c) = drop (length ([]::byte list) - maxBytes (makeRingBuffer c)) []"
    by (simp add: makeRingBuffer_def)
  have b: "buffer (append_all c chunks) = drop (length (concat chunks) - c) (concat chunks)"
    using foldl_append_window[OF init, of chunks]
    by (simp add: append_all_def makeRingBuffer_def)
  have m: "length (concat chunks) - min (length (concat chunks)) c = length (concat chunks) - c"
    by simp
  show ?thesis
    unfolding size_rb_def b m
    by (auto simp: suffix_drop)
qed


section \<open>Sanitizer: what is rejected and what passes\<close>

lemma disallowed_is_flag_not_allowed:
  "a \<in> set DISALLOWED_FLAGS \<Longrightarrow> is_flag a \<and> \<not> a \<in> set ALLOWED_FLAGS"
  by (auto simp: DISALLOWED_FLAGS_def ALLOWED_FLAGS_def)

lemma disallowed_no_meta: "a \<in> set DISALLOWED_FLAGS \<Longrightarrow> \<not> has_meta a"
  by (auto simp: DISALLOWED_FLAGS_def has_meta_def shell_meta_def)

lemma sanitize_loop_step:
  "sanitize_loop (JString a # rest) out =
     (if has_meta a then Inl (UnsafeToken a)
      else if is_flag a \<and> \<not> a \<in> set ALLOWED_FLAGS then Inl (FlagNotAllowed a)
      else sanitize_loop rest (out @ [a]))"
  using disallowed_is_flag_not_allowed[of a] by auto

lemma sanitize_loop_pass:
  "list_all token_ok pre \<Longrightarrow>
   sanitize_loop (map JString pre @ rest) out = sanitize_loop rest (out @ pre)"
proof (induction pre arbitrary: out)
  case Nil
  then show ?case by simp
next
  case (Cons a pre)
  then have "token_ok a" and "list_all token_ok pre" by simp_all
  then have "sanitize_loop (JString a # (map JString pre @ rest)) out
               = sanitize_loop (map JString pre @ rest) (out @ [a])"
    unfolding sanitize_loop_step token_ok_def by auto
  then show ?case
    using Cons.IH[OF \<open>list_all token_ok pre\<close>, of "out @ [a]"] by simp
qed

lemma sanitize_loop_fail:
  "\<not> list_all token_ok toks \<Longrightarrow> isl (sanitize_loop (map JString toks) out)"
proof (induction toks arbitrary: out)
  case Nil
  then show ?case by simp
next
  case (Cons a toks)
  show ?case
  proof (cases "token_ok a")
    case True
    with Cons.prems have "\<not> list_all token_ok toks" by simp
    have "sanitize_loop (JString a # map JString toks) out
            = sanitize_loop (map JString toks) (out @ [a])"
      using True unfolding sanitize_loop_step token_ok_def by auto
    with Cons.IH[OF \<open>\<not> list_all token_ok toks\<close>, of "out @ [a]"] show ?thesis
      by simp
  next
    case False
    then have "isl (sanitize_loop (JString a # map JString toks) out)"
      unfolding sanitize_loop_step token_ok_def by auto
    then show ?thesis by simp
  qed
qed

text \<open>
  C6. For every sequence of string tokens: the sanitizer fails when some token contains a
  shell metacharacter, it fails when some token equals a denylisted flag, and when no
  token contains a metacharacter and every token starting with \<^verbatim>\<open>-\<close> is in the
  allowlist it returns the same sequence, unchanged and in order.
\<close>

theorem sanitizeArgs_contract:
  "(list_ex has_meta toks \<longrightarrow> isl (sanitizeArgs (map JString toks)))
   \<and> (list_ex (\<lambda>a. a \<in> set DISALLOWED_FLAGS) toks \<longrightarrow> isl (sanitizeArgs (map JString toks)))
   \<and> (list_all (\<lambda>a. \<not> has_meta a \<and> (is_flag a \<longrightarrow> a \<in> set ALLOWED_FLAGS)) toks
        \<longrightarrow> sanitizeArgs (map JString toks) = Inr toks)"
proof (intro conjI impI)
  assume "list_ex has_meta toks"
  then have "\<not> list_all token_ok toks"
    by (auto simp: list_ex_iff list_all_iff token_ok_def)
  then show "isl (sanitizeArgs (map JString toks))"
    unfolding sanitizeArgs_def by (rule sanitize_loop_fail)
next
  assume "list_ex (\<lambda>a. a \<in> set DISALLOWED_FLAGS) toks"
  then have "\<not> list_all token_ok toks"
    using disallowed_is_flag_not_allowed
    by (auto simp: list_ex_iff list_all_iff token_ok_def)
  then show "isl (sanitizeArgs (map JString toks))"
    unfolding sanitizeArgs_def by (rule sanitize_loop_fail)
next
  assume "list_all (\<lambda>a. \<not> has_meta a \<and> (is_flag a \<longrightarrow> a \<in> set ALLOWED_FLAGS)) toks"
  then have "list_all token_ok toks"
    by (simp add: token_ok_def[abs_def])
  from sanitize_loop_pass[OF this, of "[]" "[]"]
  show "sanitizeArgs (map JString toks) = Inr toks"
    by (simp add: sanitizeArgs_def)
qed

theorem sanitizeArgs_contract_witness:
  "isl (sanitizeArgs (map JString [''run'', ''; rm -rf /'']))
   \<and> isl (sanitizeArgs (map JString [''--text'', ''hi'', ''-s'']))
   \<and> sanitizeArgs (map JString [''--text'', ''fix the page'', ''-n'', ''job1''])
       = Inr [''--text'', ''fix the page'', ''-n'', ''job1'']"
proof -
  have 1: "list_ex has_meta [''run'', ''; rm -rf /'']"
    by (simp add: has_meta_def shell_meta_def)
  have 2: "list_ex (\<lambda>a. a \<in> set DISALLOWED_FLAGS) [''--text'', ''hi'', ''-s'']"
    by (simp add: DISALLOWED_FLAGS_def)
  have 3: "list_all (\<lambda>a. \<not> has_meta a \<and> (is_flag a \<longrightarrow> a \<in> set ALLOWED_FLAGS))
             [''--text'', ''fix the page'', ''-n'', ''job1'']"
    by (simp add: has_meta_def shell_meta_def ALLOWED_FLAGS_def)
  show ?thesis
    using sanitizeArgs_contract[of "[''run'', ''; rm -rf /'']"]
          sanitizeArgs_contract[of "[''--text'', ''hi'', ''-s'']"]
          sanitizeArgs_contract[of "[''--text'', ''fix the page'', ''-n'', ''job1'']"]
          1 2 3
    by blast
qed

text \<open>
  C7, as stated, fails: a denylisted token starts with \<^verbatim>\<open>-\<close> and is not in the
  allowlist, so the allowlist check, which comes first in the loop body, throws
  \<^verbatim>\<open>flag not allowed\<close> before the denylist check is reached.
\<close>

theorem denylisted_flag_error_counterexample:
  "sanitizeArgs [JString ''--interactive''] = Inl (FlagNotAllowed ''--interactive'')
   \<and> sanitizeArgs [JString ''--interactive''] \<noteq> Inl (FlagDisallowed ''--interactive'')"
  by (simp add: sanitizeArgs_def has_meta_def shell_meta_def ALLOWED_FLAGS_def)

lemma sanitize_loop_never_disallowed: "sanitize_loop toks out \<noteq> Inl (FlagDisallowed b)"
proof (induction toks out rule: sanitize_loop.induct)
  case (3 a rest out)
  show ?case
  proof (cases "token_ok a")
    case True
    then have "\<not> a \<in> set DISALLOWED_FLAGS"
      using disallowed_is_flag_not_allowed[of a] by (auto simp: token_ok_def)
    with True "3.IH" show ?thesis
      unfolding sanitize_loop_step token_ok_def by auto
  next
    case False
    then show ?thesis
      unfolding sanitize_loop_step token_ok_def by auto
  qed
qed simp_all

text \<open>
  C7, amended. Every token of the denylist makes the sanitizer fail; when the tokens
  before it pass, the error is \<^verbatim>\<open>flag not allowed\<close> for that token, since it starts
  with \<^verbatim>\<open>-\<close> and is not allowlisted; with the present tables the sanitizer never
  fails with \<^verbatim>\<open>flag disallowed\<close>.
\<close>

theorem denylisted_flag_rejected:
  assumes "a \<in> set DISALLOWED_FLAGS"
  shows "isl (sanitizeArgs (map JString (pre @ a # post)))
       \<and> (list_all token_ok pre \<longrightarrow>
            sanitizeArgs (map JString (pre @ a # post)) = Inl (FlagNotAllowed a))
       \<and> (\<forall>toks b. sanitizeArgs toks \<noteq> Inl (FlagDisallowed b))"
proof (intro conjI impI allI)
  have bad: "\<not> token_ok a"
    using disallowed_is_flag_not_allowed[OF assms] by (simp add: token_ok_def)
  then have "\<not> list_all token_ok (pre @ a # post)" by simp
  then show "isl (sanitizeArgs (map JString (pre @ a # post)))"
    unfolding sanitizeArgs_def by (rule sanitize_loop_fail)
  show "sanitizeArgs (map JString (pre @ a # post)) = Inl (FlagNotAllowed a)"
    if "list_all token_ok pre"
    using sanitize_loop_pass[OF that, of "JString a # map JString post" "[]"]
          disallowed_is_flag_not_allowed[OF assms] disallowed_no_meta[OF assms]
    unfolding sanitizeArgs_def sanitize_loop_step by simp
  show "sanitizeArgs toks \<noteq> Inl (FlagDisallowed b)" for toks b
    unfolding sanitizeArgs_def by (rule sanitize_loop_never_disallowed)
qed

theorem denylisted_flag_rejected_witness:
  "''-s'' \<in> set DISALLOWED_FLAGS \<and> list_all token_ok [''--text'', ''hi'']
   \<and> isl (sanitizeArgs (map JString ([''--text'', ''hi''] @ ''-s'' # [''x''])))
   \<and> sanitizeArgs (map JString ([''--text'', ''hi''] @ ''-s'' # [''x''])) = Inl (FlagNotAllowed ''-s'')"
proof -
  have d: "''-s'' \<in> set DISALLOWED_FLAGS"
    by (simp add: DISALLOWED_FLAGS_def)
  have p: "list_all token_ok [''--text'', ''hi'']"
    by (simp add: token_ok_def has_meta_def shell_meta_def ALLOWED_FLAGS_def)
  show ?thesis
    using d p denylisted_flag_rejected[OF d, of "[''--text'', ''hi'']" "[''x'']"]
    by blast
qed


section \<open>Job registry: the running slot and the status of a job\<close>

lemmas registry_defs = run_def status_of_def startJob_def stopJob_def on_exit_def on_stdout_def
  on_stderr_def init_registry_def truthy_def process_kill_def Let_def demo_request_def

lemma startJob_busy: "truthy (runningJobId s) \<Longrightarrow> startJob s n p t rq = (Inl BUSY, s)"
  by (simp add: startJob_def)

lemma startJob_free:
  "\<not> truthy (runningJobId s) \<Longrightarrow>
   fst (startJob s n (Spawned p) t rq) = Inr (n, p, t)
   \<and> status_of (snd (startJob s n (Spawned p) t rq)) n = Some Running
   \<and> runningJobId (snd (startJob s n (Spawned p) t rq)) = Some n"
  by (simp add: startJob_def status_of_def Let_def)

lemma run_snoc: "run (evs @ [e]) = step (run evs) e"
  by (simp add: run_def)

text \<open>
  C1 fails on the code. The \<^verbatim>\<open>exit\<close> handler clears \<^verbatim>\<open>runningJobId\<close> whichever job
  holds the slot. Job \<open>a\<close> is started and stopped, job \<open>b\<close> is started, and then
  the \<^verbatim>\<open>exit\<close> event of \<open>a\<close>'s child arrives: the slot is emptied while \<open>b\<close> is
  running, the next \<^verbatim>\<open>startJob\<close> is not refused, and \<open>b\<close> and \<open>c\<close> are both
  \<^verbatim>\<open>running\<close>.
\<close>

theorem second_job_started_while_running:
  "status_of (run [Start ''a'' (Some 100) 0 demo_request, Stop ''a'' True 1,
                   Start ''b'' (Some 101) 2 demo_request, Exit ''a'' None 3]) ''b'' = Some Running
   \<and> fst (startJob (run [Start ''a'' (Some 100) 0 demo_request, Stop ''a'' True 1,
                         Start ''b'' (Some 101) 2 demo_request, Exit ''a'' None 3])
              ''c'' (Spawned (Some 102)) 4 demo_request) = Inr (''c'', Some 102, 4)
   \<and> status_of (run [Start ''a'' (Some 100) 0 demo_request, Stop ''a'' True 1,
                     Start ''b'' (Some 101) 2 demo_request, Exit ''a'' None 3,
                     Start ''c'' (Some 102) 4 demo_request]) ''b'' = Some Running
   \<and> status_of (run [Start ''a'' (Some 100) 0 demo_request, Stop ''a'' True 1,
                     Start ''b'' (Some 101) 2 demo_request, Exit ''a'' None 3,
                     Start ''c'' (Some 102) 4 demo_request]) ''c'' = Some Running"
  by (simp add: registry_defs)

text \<open>
  C2 fails on the code. The \<^verbatim>\<open>exit\<close> handler assigns \<^verbatim>\<open>job.status\<close> without looking
  at it: a job that \<^verbatim>\<open>stopJob\<close> has marked \<^verbatim>\<open>canceled\<close> becomes \<^verbatim>\<open>failed\<close> when
  its child, ended by the signal, reports its exit (with exit code \<^verbatim>\<open>null\<close>).
\<close>

theorem canceled_job_becomes_failed:
  "status_of (run [Start ''a'' (Some 100) 0 demo_request, Stop ''a'' True 1]) ''a'' = Some Canceled
   \<and> status_of (run [Start ''a'' (Some 100) 0 demo_request, Stop ''a'' True 1,
                     Exit ''a'' None 2]) ''a'' = Some Failed"
  by (simp add: registry_defs)




lemma step_running_unfinished:
  "running_unfinished s \<Longrightarrow> running_unfinished (step s e)"
  by (cases e)
     (auto simp: running_unfinished_def startJob_def stopJob_def on_exit_def on_stdout_def
        on_stderr_def Let_def split: option.splits if_splits)

lemma run_running_unfinished: "running_unfinished (run evs)"
proof (induction evs rule: rev_induct)
  case Nil
  then show ?case by (simp add: run_def init_registry_def running_unfinished_def)
next
  case (snoc e evs)
  then show ?case by (simp add: run_snoc step_running_unfinished)
qed

text \<open>
  C10. In a state the module reaches, for a job whose status is \<^verbatim>\<open>running\<close>: when
  \<^verbatim>\<open>process.kill\<close> throws, \<^verbatim>\<open>stopJob\<close> returns \<^verbatim>\<open>kill_failed\<close> and the state is
  the one before the call. The job is still \<^verbatim>\<open>running\<close>, its finish timestamp is
  unset, and the running slot has the value it had: if it held the job, it still does.
\<close>

theorem stopJob_kill_failed_unchanged:
  assumes "jobs (run evs) i = Some j" and "status j = Running"
    and "\<not> process_kill (pid j) delivered"
  shows "stopJob (run evs) i delivered now = (Inl kill_failed, run evs)
       \<and> jobs (snd (stopJob (run evs) i delivered now)) i = Some j
       \<and> status_of (snd (stopJob (run evs) i delivered now)) i = Some Running
       \<and> finishedAt j = None
       \<and> runningJobId (snd (stopJob (run evs) i delivered now)) = runningJobId (run evs)
       \<and> (runningJobId (run evs) = Some i \<longrightarrow>
            runningJobId (snd (stopJob (run evs) i delivered now)) = Some i)"
proof -
  have 1: "stopJob (run evs) i delivered now = (Inl kill_failed, run evs)"
    using assms by (simp add: stopJob_def)
  have 2: "finishedAt j = None"
    using run_running_unfinished[of evs] assms(1,2) by (auto simp: running_unfinished_def)
  show ?thesis using 1 2 assms by (simp add: status_of_def)
qed

theorem stopJob_kill_failed_unchanged_witness:
  "stopJob (run [Start ''a'' (Some 100) 0 demo_request]) ''a'' False 1
     = (Inl kill_failed, run [Start ''a'' (Some 100) 0 demo_request])
   \<and> status_of (snd (stopJob (run [Start ''a'' (Some 100) 0 demo_request]) ''a'' False 1)) ''a''
       = Some Running
   \<and> map_option finishedAt
        (jobs (snd (stopJob (run [Start ''a'' (Some 100) 0 demo_request]) ''a'' False 1)) ''a'')
       = Some None
   \<and> runningJobId (run [Start ''a'' (Some 100) 0 demo_request]) = Some ''a''
   \<and> runningJobId (snd (stopJob (run [Start ''a'' (Some 100) 0 demo_request]) ''a'' False 1))
       = Some ''a''"
proof -
  let ?s = "run [Start ''a'' (Some 100) 0 demo_request]"
  obtain j where j: "jobs ?s ''a'' = Some j" "status j = Running"
      "\<not> process_kill (pid j) False"
    by (simp add: registry_defs)
  have r: "runningJobId ?s = Some ''a''"
    by (simp add: registry_defs)
  note t = stopJob_kill_failed_unchanged[OF j, of 1]
  have "jobs (snd (stopJob ?s ''a'' False 1)) ''a'' = Some j" and "finishedAt j = None"
    using t by blast+
  then have f: "map_option finishedAt (jobs (snd (stopJob ?s ''a'' False 1)) ''a'') = Some None"
    by (simp only: option.map)
  show ?thesis
    using t r f by blast
qed


section \<open>Streaming the logs by offset\<close>

lemma concat_chunks_of: "concat (chunks_of mx bs) = bs"
proof (induction mx bs rule: chunks_of.induct)
  case (1 mx bs)
  show ?case
  proof (cases "mx = 0 \<or> length bs \<le> mx")
    case True
    then show ?thesis by (subst chunks_of.simps) simp
  next
    case False
    with "1.IH" have "concat (chunks_of mx (drop mx bs)) = drop mx bs" by simp
    with False show ?thesis by (subst chunks_of.simps) simp
  qed
qed

lemma utf8_decode_append:
  "utf8_end st a = Idle \<Longrightarrow> utf8_decode st (a @ b) = utf8_decode st a @ utf8_decode Idle b"
  by (induction a arbitrary: st) simp_all

lemma concat_decode:
  "list_all (\<lambda>p. utf8_end Idle p = Idle) (butlast ps) \<Longrightarrow>
   concat (map toString_utf8 ps) = toString_utf8 (concat ps)"
proof (induction ps)
  case Nil
  then show ?case by (simp add: toString_utf8_def)
next
  case (Cons p ps)
  show ?case
  proof (cases "ps = []")
    case True
    then show ?thesis by simp
  next
    case False
    with Cons.prems have e: "utf8_end Idle p = Idle"
      and r: "list_all (\<lambda>p. utf8_end Idle p = Idle) (butlast ps)" by simp_all
    from Cons.IH[OF r] utf8_decode_append[OF e]
    show ?thesis by (simp add: toString_utf8_def)
  qed
qed

lemma tail_logs_from:
  assumes j: "jobs s i = Some j" and mx: "0 < mx"
  shows "offset \<le> length (buffer (stream_of j w)) \<Longrightarrow>
         \<exists>rs. tail_logs s i w mx offset = Some rs
            \<and> map data rs = map toString_utf8 (chunks_of mx (drop offset (buffer (stream_of j w))))
            \<and> rs \<noteq> [] \<and> isEnd (last rs) \<and> list_all (\<lambda>r. \<not> isEnd r) (butlast rs)
            \<and> nextOffset (last rs) = length (buffer (stream_of j w))"
proof (induction "length (buffer (stream_of j w)) - offset" arbitrary: offset rule: less_induct)
  case less
  let ?B = "buffer (stream_of j w)"
  let ?r = "read (stream_of j w) offset mx"
  have sl: "streamLogs s i w offset mx = Some ?r"
    using j by (simp add: streamLogs_def)
  show ?case
  proof (cases "length ?B \<le> offset + mx")
    case True
    then have e: "isEnd ?r" and n: "nextOffset ?r = length ?B"
      and d: "data ?r = toString_utf8 (drop offset ?B)"
      using less.prems by (simp_all add: read_def Let_def min_def)
    have t: "tail_logs s i w mx offset = Some [?r]"
      by (subst tail_logs.simps) (simp add: sl e)
    have c: "chunks_of mx (drop offset ?B) = [drop offset ?B]"
      using True by (subst chunks_of.simps) auto
    show ?thesis using t c e n d by simp
  next
    case False
    then have e: "\<not> isEnd ?r" and n: "nextOffset ?r = offset + mx"
      and d: "data ?r = toString_utf8 (take mx (drop offset ?B))"
      using less.prems by (simp_all add: read_def Let_def min_def)
    have "length ?B - (offset + mx) < length ?B - offset" and "offset + mx \<le> length ?B"
      using False mx by simp_all
    from less.hyps[OF this]
    obtain rs where rs: "tail_logs s i w mx (offset + mx) = Some rs"
      "map data rs = map toString_utf8 (chunks_of mx (drop (offset + mx) ?B))"
      "rs \<noteq> []" "isEnd (last rs)" "list_all (\<lambda>r. \<not> isEnd r) (butlast rs)"
      "nextOffset (last rs) = length ?B"
      by blast
    have t: "tail_logs s i w mx offset = Some (?r # rs)"
      by (subst tail_logs.simps) (simp add: sl e n rs(1))
    have c: "chunks_of mx (drop offset ?B)
               = take mx (drop offset ?B) # chunks_of mx (drop (offset + mx) ?B)"
      using False mx by (subst chunks_of.simps) (auto simp: add.commute)
    show ?thesis using t c e d rs by simp
  qed
qed

lemma ascii_idle: "list_all (\<lambda>b. unat b < 0x80) p \<Longrightarrow> utf8_end Idle p = Idle"
  by (induction p) (simp_all add: utf8_next_def lead_byte_def)

lemma ascii_chunks_idle:
  assumes "list_all (\<lambda>b. unat b < 0x80) bs"
  shows "list_all (\<lambda>p. utf8_end Idle p = Idle) (butlast (chunks_of mx bs))"
proof -
  have "list_all (\<lambda>b. unat b < 0x80) p" if "p \<in> set (chunks_of mx bs)" for p
  proof -
    have "set p \<subseteq> set (concat (chunks_of mx bs))" using that by auto
    then show ?thesis using assms by (auto simp: concat_chunks_of list_all_iff)
  qed
  then show ?thesis
    by (auto simp: list_all_iff dest!: in_set_butlastD intro: ascii_idle)
qed

text \<open>
  C4, amended. For a job whose buffer does not change between the calls and every
  positive \<open>mx\<close>: calling \<^verbatim>\<open>streamLogs\<close> at offset 0 and then at each returned
  \<^verbatim>\<open>nextOffset\<close> ends; the last call, and no call before it, returns \<^verbatim>\<open>isEnd\<close>;
  the results are the decodings of the consecutive slices of \<open>mx\<close> bytes, and these
  slices concatenate to the bytes of the buffer, without gap or duplicate. The
  concatenation of the returned strings is the full content (the string \<^verbatim>\<open>full\<close>
  returns) when no slice but the last ends inside a multi-byte sequence, as is the case
  when the buffer holds ASCII only.
\<close>

theorem streamLogs_reconstructs:
  assumes "jobs s i = Some j" and "0 < mx"
  shows "\<exists>rs. tail_logs s i w mx 0 = Some rs
           \<and> rs \<noteq> [] \<and> isEnd (last rs) \<and> list_all (\<lambda>r. \<not> isEnd r) (butlast rs)
           \<and> map data rs = map toString_utf8 (chunks_of mx (buffer (stream_of j w)))
           \<and> concat (chunks_of mx (buffer (stream_of j w))) = buffer (stream_of j w)
           \<and> (list_all (\<lambda>p. utf8_end Idle p = Idle) (butlast (chunks_of mx (buffer (stream_of j w))))
                \<longrightarrow> concat (map data rs) = full (stream_of j w))
           \<and> (list_all (\<lambda>b. unat b < 0x80) (buffer (stream_of j w))
                \<longrightarrow> concat (map data rs) = full (stream_of j w))"
proof -
  from tail_logs_from[OF assms, of 0 w]
  obtain rs where rs: "tail_logs s i w mx 0 = Some rs"
      "map data rs = map toString_utf8 (chunks_of mx (buffer (stream_of j w)))"
      "rs \<noteq> []" "isEnd (last rs)" "list_all (\<lambda>r. \<not> isEnd r) (butlast rs)"
    by auto
  have "concat (map data rs) = full (stream_of j w)"
    if "list_all (\<lambda>p. utf8_end Idle p = Idle) (butlast (chunks_of mx (buffer (stream_of j w))))"
    using concat_decode[OF that] rs(2) by (simp add: full_def concat_chunks_of)
  then show ?thesis using rs concat_chunks_of ascii_chunks_idle[of "buffer (stream_of j w)" mx]
    by blast
qed


lemma tail_logs_last:
  "streamLogs s i w offset mx = Some r \<Longrightarrow> isEnd r \<Longrightarrow> tail_logs s i w mx offset = Some [r]"
  by (subst tail_logs.simps) simp

lemma tail_logs_more:
  "streamLogs s i w offset mx = Some r \<Longrightarrow> \<not> isEnd r \<Longrightarrow>
   tail_logs s i w mx (nextOffset r) = Some rs \<Longrightarrow> tail_logs s i w mx offset = Some (r # rs)"
  by (subst tail_logs.simps) simp

lemmas log_defs = streamLogs_def stream_of_def read_def full_def getOutput_def toString_utf8_def
  utf8_next_def lead_byte_def append_def makeRingBuffer_def

theorem streamLogs_reconstructs_witness:
  "tail_logs (run [Start ''a'' (Some 100) 0 demo_request, StdoutData ''a'' [0xC3, 0xA9, 0x68]])
      ''a'' Stdout 2 0
     = Some [\<lparr>data = [0xE9], nextOffset = 2, isEnd = False\<rparr>,
             \<lparr>data = [0x68], nextOffset = 3, isEnd = True\<rparr>]
   \<and> (\<exists>rs. tail_logs (run [Start ''a'' (Some 100) 0 demo_request,
                               StdoutData ''a'' [0xC3, 0xA9, 0x68]]) ''a'' Stdout 2 0 = Some rs
            \<and> isEnd (last rs) \<and> concat (map data rs) = [0xE9, 0x68])"
proof -
  let ?s = "run [Start ''a'' (Some 100) 0 demo_request, StdoutData ''a'' [0xC3, 0xA9, 0x68]]"
  obtain j where j: "jobs ?s ''a'' = Some j"
      and b: "stream_of j Stdout = \<lparr>maxBytes = 1024, buffer = [0xC3, 0xA9, 0x68]\<rparr>"
    by (simp add: registry_defs log_defs)
  have c: "chunks_of 2 [0xC3, 0xA9, 0x68] = [[0xC3, 0xA9], [0x68]]"
    by (simp add: chunks_of.simps[of 2 "[0xC3, 0xA9, 0x68]"] chunks_of.simps[of 2 "[0x68]"])
  have e: "list_all (\<lambda>p. utf8_end Idle p = Idle)
             (butlast (chunks_of 2 (buffer (stream_of j Stdout))))"
    by (simp add: b c utf8_next_def lead_byte_def)
  have f: "full (stream_of j Stdout) = [0xE9, 0x68]"
    by (simp add: b full_def toString_utf8_def utf8_next_def lead_byte_def)
  have 1: "streamLogs ?s ''a'' Stdout 0 2 = Some \<lparr>data = [0xE9], nextOffset = 2, isEnd = False\<rparr>"
    by (simp add: registry_defs log_defs)
  have 2: "streamLogs ?s ''a'' Stdout 2 2 = Some \<lparr>data = [0x68], nextOffset = 3, isEnd = True\<rparr>"
    by (simp add: registry_defs log_defs)
  have t2: "tail_logs ?s ''a'' Stdout 2 2 = Some [\<lparr>data = [0x68], nextOffset = 3, isEnd = True\<rparr>]"
    by (rule tail_logs_last[OF 2]) simp
  have t1: "tail_logs ?s ''a'' Stdout 2 0
              = Some [\<lparr>data = [0xE9], nextOffset = 2, isEnd = False\<rparr>,
                      \<lparr>data = [0x68], nextOffset = 3, isEnd = True\<rparr>]"
    using t2 by (intro tail_logs_more[OF 1]) simp_all
  have m: "(0::nat) < 2" by simp
  from streamLogs_reconstructs[OF j m, of Stdout] e f
  have "\<exists>rs. tail_logs ?s ''a'' Stdout 2 0 = Some rs
           \<and> isEnd (last rs) \<and> concat (map data rs) = [0xE9, 0x68]"
    by metis
  with t1 show ?thesis by blast
qed

text \<open>
  C4, as stated, fails: each call decodes its own slice of bytes, so a character whose
  bytes fall into two slices comes back as two replacement characters. The buffer holds
  the two bytes of U+00E9 and is read one byte at a time.
\<close>

theorem streamLogs_split_character_counterexample:
  "tail_logs (run [Start ''a'' (Some 100) 0 demo_request, StdoutData ''a'' [0xC3, 0xA9]])
      ''a'' Stdout 1 0
     = Some [\<lparr>data = [0xFFFD], nextOffset = 1, isEnd = False\<rparr>,
             \<lparr>data = [0xFFFD], nextOffset = 2, isEnd = True\<rparr>]
   \<and> getOutput (run [Start ''a'' (Some 100) 0 demo_request, StdoutData ''a'' [0xC3, 0xA9]]) ''a''
       = Some ([0xE9], [], None)
   \<and> concat (map data [\<lparr>data = [0xFFFD], nextOffset = 1, isEnd = False\<rparr>,
                         \<lparr>data = [0xFFFD], nextOffset = 2, isEnd = True\<rparr>]) \<noteq> [0xE9]"
proof -
  let ?s = "run [Start ''a'' (Some 100) 0 demo_request, StdoutData ''a'' [0xC3, 0xA9]]"
  have 1: "streamLogs ?s ''a'' Stdout 0 1 = Some \<lparr>data = [0xFFFD], nextOffset = 1, isEnd = False\<rparr>"
    by (simp add: registry_defs log_defs)
  have 2: "streamLogs ?s ''a'' Stdout 1 1 = Some \<lparr>data = [0xFFFD], nextOffset = 2, isEnd = True\<rparr>"
    by (simp add: registry_defs log_defs)
  have t2: "tail_logs ?s ''a'' Stdout 1 1 = Some [\<lparr>data = [0xFFFD], nextOffset = 2, isEnd = True\<rparr>]"
    by (rule tail_logs_last[OF 2]) simp
  have t1: "tail_logs ?s ''a'' Stdout 1 0
              = Some [\<lparr>data = [0xFFFD], nextOffset = 1, isEnd = False\<rparr>,
                      \<lparr>data = [0xFFFD], nextOffset = 2, isEnd = True\<rparr>]"
    using t2 by (intro tail_logs_more[OF 1]) simp_all
  have g: "getOutput ?s ''a'' = Some ([0xE9], [], None)"
    by (simp add: registry_defs log_defs)
  show ?thesis using t1 g by simp
qed


section \<open>Paths: normal forms\<close>

lemmas path_defs = normalizeString_def norm_step_def isAbsolute_def path_normalize_def path_join_def
  path_key_def path_resolve_def path_dirname_def isSubPath_def branchSlug_def MAIN_BRANCH_def
  PREVIEW_PREFIX_def resolvePreviewRoot_def resolveTargetDir_def Let_def

lemma split_sep_nonempty: "split_sep p \<noteq> []"
  by (induction p) (auto split: list.splits)

lemma split_sep_append: "split_sep (a @ CHR ''/'' # b) = split_sep a @ split_sep b"
  by (induction a) (auto split: list.splits simp: split_sep_nonempty)

lemma split_sep_no_slash: "CHR ''/'' \<notin> set s \<Longrightarrow> split_sep s = [s]"
  by (induction s) auto

lemma split_sep_slash_free: "s \<in> set (split_sep p) \<Longrightarrow> CHR ''/'' \<notin> set s"
  by (induction p arbitrary: s) (auto split: list.splits if_splits)

lemma join_sep_Cons: "ss \<noteq> [] \<Longrightarrow> join_sep (s # ss) = s @ CHR ''/'' # join_sep ss"
  by (cases ss) simp_all

lemma join_sep_append:
  "xs \<noteq> [] \<Longrightarrow> ys \<noteq> [] \<Longrightarrow> join_sep (xs @ ys) = join_sep xs @ CHR ''/'' # join_sep ys"
proof (induction xs)
  case Nil
  then show ?case by simp
next
  case (Cons x xs)
  then show ?case by (cases "xs = []") (simp_all add: join_sep_Cons)
qed

lemma join_sep_nonempty: "xs \<noteq> [] \<Longrightarrow> hd xs \<noteq> [] \<Longrightarrow> join_sep xs \<noteq> []"
  by (cases xs rule: join_sep.cases) auto

lemma split_join_sep:
  "list_all good_seg ks \<Longrightarrow> ks \<noteq> [] \<Longrightarrow> split_sep (join_sep ks) = ks"
proof (induction ks)
  case Nil
  then show ?case by simp
next
  case (Cons k ks)
  show ?case
  proof (cases "ks = []")
    case True
    with Cons.prems show ?thesis by (simp add: split_sep_no_slash good_seg_def)
  next
    case False
    with Cons show ?thesis
      by (simp add: join_sep_Cons split_sep_append split_sep_no_slash good_seg_def)
  qed
qed

lemma norm_good: "list_all good_seg ks \<Longrightarrow> foldl (norm_step b) acc ks = acc @ ks"
  by (induction ks arbitrary: acc) (auto simp: norm_step_def good_seg_def)

lemma norm_step_good:
  "list_all good_seg acc \<Longrightarrow> CHR ''/'' \<notin> set s \<Longrightarrow> list_all good_seg (norm_step False acc s)"
  by (auto simp: norm_step_def good_seg_def list_all_iff dest: in_set_butlastD)

lemma foldl_norm_good:
  "list_all good_seg acc \<Longrightarrow> \<forall>s\<in>set segs. CHR ''/'' \<notin> set s \<Longrightarrow>
   list_all good_seg (foldl (norm_step False) acc segs)"
  by (induction segs arbitrary: acc) (simp_all add: norm_step_good)

lemma normalizeString_good: "list_all good_seg (normalizeString p False)"
  unfolding normalizeString_def
  by (rule foldl_norm_good) (simp_all add: split_sep_slash_free)

lemma norm_rendered:
  assumes "list_all good_seg ks"
  shows "normalizeString (CHR ''/'' # join_sep ks) False = ks"
proof (cases "ks = []")
  case True
  then show ?thesis by (simp add: normalizeString_def norm_step_def)
next
  case False
  have "normalizeString (CHR ''/'' # join_sep ks) False
          = foldl (norm_step False) (norm_step False [] []) ks"
    using split_join_sep[OF assms False] by (simp add: normalizeString_def)
  then show ?thesis using norm_good[OF assms] by (simp add: norm_step_def)
qed

lemma path_key_rendered:
  "list_all good_seg ks \<Longrightarrow> path_key wd (CHR ''/'' # join_sep ks) = ks"
  by (simp add: path_key_def isAbsolute_def norm_rendered)

lemma path_resolve_rendered:
  "list_all good_seg ks \<Longrightarrow> path_resolve wd (CHR ''/'' # join_sep ks) = CHR ''/'' # join_sep ks"
  by (simp add: path_resolve_def path_key_rendered)

lemma root_key_good: "list_all good_seg (root_key homedir)" "root_key homedir \<noteq> []"
  using normalizeString_good[of homedir] by (simp_all add: root_key_def good_seg_def)

lemma join_abs_norm:
  assumes "isAbsolute h" and "list_all good_seg es" and "es \<noteq> []"
  shows "path_normalize (h @ CHR ''/'' # join_sep es)
           = CHR ''/'' # join_sep (normalizeString h False @ es)"
proof -
  let ?j = "h @ CHR ''/'' # join_sep es"
  have abs: "isAbsolute ?j" using assms(1) by (cases h) (simp_all add: isAbsolute_def)
  have je: "join_sep es \<noteq> []"
    using assms(2,3) by (intro join_sep_nonempty) (auto simp: good_seg_def list_all_iff)
  have "last (join_sep es) \<noteq> CHR ''/''"
  proof -
    have "last es \<in> set es" using assms(3) by simp
    then have g: "good_seg (last es)" using assms(2) by (simp add: list_all_iff)
    have "join_sep es = last es \<or> (\<exists>p. join_sep es = p @ CHR ''/'' # last es)"
    proof (cases "butlast es = []")
      case True
      then have "es = [last es]" using assms(3)
        by (metis append_butlast_last_id append_Nil)
      then show ?thesis by (metis join_sep.simps(2))
    next
      case False
      then have "join_sep (butlast es @ [last es]) = join_sep (butlast es) @ CHR ''/'' # join_sep [last es]"
        by (intro join_sep_append) simp_all
      then show ?thesis using assms(3) by auto
    qed
    moreover have "last (last es) \<noteq> CHR ''/''"
    proof -
      have "last (last es) \<in> set (last es)" using g by (simp add: good_seg_def)
      then show ?thesis using g unfolding good_seg_def by metis
    qed
    moreover have "last es \<noteq> []" using g by (simp add: good_seg_def)
    ultimately show ?thesis by auto
  qed
  then have tr: "last ?j \<noteq> CHR ''/''" using je by simp
  have n: "normalizeString ?j False = normalizeString h False @ es"
    using split_join_sep[OF assms(2,3)] norm_good[OF assms(2)]
    by (simp add: normalizeString_def split_sep_append)
  have ne: "join_sep (normalizeString h False @ es) \<noteq> []"
  proof (cases "normalizeString h False = []")
    case True
    then show ?thesis using je by simp
  next
    case False
    then show ?thesis using je assms(3) by (simp add: join_sep_append)
  qed
  show ?thesis
    using abs tr n ne by (simp add: path_normalize_def Let_def)
qed

lemma resolvePreviewRoot_eq:
  assumes "isAbsolute homedir"
  shows "resolvePreviewRoot homedir = CHR ''/'' # join_sep (root_key homedir)"
proof -
  have h: "homedir \<noteq> []" using assms by (auto simp: isAbsolute_def)
  have g: "list_all good_seg [''.cache'', ''mcp-goose'', ''www'']" by (simp add: good_seg_def)
  have "path_join [homedir, ''.cache'', ''mcp-goose'', ''www'']
          = path_normalize (homedir @ CHR ''/'' # join_sep [''.cache'', ''mcp-goose'', ''www''])"
    using h by (simp add: path_join_def Let_def join_sep_Cons)
  then show ?thesis
    using join_abs_norm[OF assms g] by (simp add: resolvePreviewRoot_def root_key_def)
qed


lemma branchSlug_slash_free: "CHR ''/'' \<notin> set (branchSlug b)"
  by (auto simp: branchSlug_def slug_char_def)

lemma normalize_abs:
  assumes "isAbsolute j" and "last j \<noteq> CHR ''/''" and "normalizeString j False \<noteq> []"
  shows "path_normalize j = CHR ''/'' # join_sep (normalizeString j False)"
proof -
  have "list_all good_seg (normalizeString j False)" by (rule normalizeString_good)
  then have "hd (normalizeString j False) \<noteq> []"
    using assms(3) by (cases "normalizeString j False") (simp_all add: good_seg_def)
  then have "join_sep (normalizeString j False) \<noteq> []"
    using assms(3) by (intro join_sep_nonempty)
  moreover have "j \<noteq> []" using assms(1) by (auto simp: isAbsolute_def)
  ultimately show ?thesis using assms(1,2) by (simp add: path_normalize_def Let_def)
qed

lemma norm_step_preview:
  assumes "ks \<noteq> []"
  shows "norm_step False (ks @ [''.preview'']) s \<noteq> []"
  using assms by (auto simp: norm_step_def)

lemma target_joined:
  assumes k: "list_all good_seg ks" "ks \<noteq> []" and s: "CHR ''/'' \<notin> set s"
  shows "path_join [CHR ''/'' # join_sep ks, ''.preview'', s]
           = CHR ''/'' # join_sep (norm_step False (ks @ [''.preview'']) s)"
proof -
  let ?r = "CHR ''/'' # join_sep ks"
  let ?j = "?r @ CHR ''/'' # ''.preview'' @ (if s = [] then [] else CHR ''/'' # s)"
  have j: "join_sep (filter (\<lambda>a. a \<noteq> []) [?r, ''.preview'', s]) = ?j"
    by simp
  have abs: "isAbsolute ?j" by (simp add: isAbsolute_def)
  have tr: "last ?j \<noteq> CHR ''/''"
  proof (cases "s = []")
    case True
    then show ?thesis by simp
  next
    case False
    then have "last s \<in> set s" by simp
    then have "last s \<noteq> CHR ''/''" using s by metis
    then show ?thesis using False by simp
  qed
  have sp: "split_sep ?j = split_sep ?r @ ''.preview'' # (if s = [] then [] else [s])"
  proof (cases "s = []")
    case True
    have "split_sep (?r @ CHR ''/'' # ''.preview'') = split_sep ?r @ split_sep ''.preview''"
      by (rule split_sep_append)
    then show ?thesis using True by simp
  next
    case False
    have "split_sep (?r @ CHR ''/'' # (''.preview'' @ CHR ''/'' # s))
            = split_sep ?r @ split_sep (''.preview'' @ CHR ''/'' # s)"
      by (rule split_sep_append)
    moreover have "split_sep (''.preview'' @ CHR ''/'' # s) = split_sep ''.preview'' @ split_sep s"
      by (rule split_sep_append)
    ultimately show ?thesis using False s by (simp add: split_sep_no_slash)
  qed
  have n: "normalizeString ?j False = norm_step False (ks @ [''.preview'']) s"
  proof -
    have "normalizeString ?j False
            = foldl (norm_step False) (normalizeString ?r False)
                (''.preview'' # (if s = [] then [] else [s]))"
      unfolding normalizeString_def sp by simp
    also have "\<dots> = foldl (norm_step False) ks (''.preview'' # (if s = [] then [] else [s]))"
      by (simp only: norm_rendered[OF k(1)])
    also have "\<dots> = norm_step False (ks @ [''.preview'']) s"
      by (simp add: norm_step_def)
    finally show ?thesis .
  qed
  have "path_normalize ?j = CHR ''/'' # join_sep (normalizeString ?j False)"
    using abs tr norm_step_preview[OF k(2), of s] unfolding n[symmetric]
    by (rule normalize_abs)
  then show ?thesis
    unfolding path_join_def j n by (simp add: Let_def)
qed

lemma resolveTargetDir_eq:
  assumes "isAbsolute homedir"
  shows "resolveTargetDir (resolvePreviewRoot homedir) branch
           = CHR ''/'' # join_sep (target_key homedir branch)"
proof (cases "branch = MAIN_BRANCH")
  case True
  then show ?thesis
    by (simp add: resolveTargetDir_def target_key_def resolvePreviewRoot_eq[OF assms])
next
  case False
  then show ?thesis
    using target_joined[OF root_key_good branchSlug_slash_free, of homedir branch]
    by (simp add: resolveTargetDir_def target_key_def resolvePreviewRoot_eq[OF assms]
        PREVIEW_PREFIX_def)
qed

lemma target_key_cases:
  "target_key homedir branch = root_key homedir
   \<or> target_key homedir branch = root_key homedir @ [''.preview'']
   \<or> (target_key homedir branch = root_key homedir @ [''.preview'', branchSlug branch]
      \<and> good_seg (branchSlug branch) \<and> branch \<noteq> MAIN_BRANCH)"
  using branchSlug_slash_free[of branch]
  by (auto simp: target_key_def norm_step_def PREVIEW_PREFIX_def good_seg_def)

lemma target_key_good: "list_all good_seg (target_key homedir branch)"
  using target_key_cases[of homedir branch] root_key_good(1)[of homedir]
  by (auto simp: good_seg_def)

lemma target_key_prefix: "prefix (root_key homedir) (target_key homedir branch)"
  using target_key_cases[of homedir branch] by auto

lemma rendered_prefix:
  assumes "ks \<noteq> []" and "prefix ks ts"
  shows "CHR ''/'' # join_sep ts = CHR ''/'' # join_sep ks
         \<or> prefix ((CHR ''/'' # join_sep ks) @ ''/'') (CHR ''/'' # join_sep ts)"
proof -
  from assms(2) obtain es where ts: "ts = ks @ es" by (auto simp: prefix_def)
  show ?thesis
  proof (cases "es = []")
    case True
    then show ?thesis using ts by simp
  next
    case False
    then show ?thesis using ts assms(1) by (simp add: join_sep_append)
  qed
qed


section \<open>Publisher: the target directory stays inside the preview root\<close>

lemmas fs_defs = is_file_def mkdirp_def ensureDirSync_def rmDirContents_def copyDir_def
  ensureScopeReady_def
  publish_url_def publishCurrentBranch_def empty_fs_def slug_char_def

lemma target_within_preview_root:
  assumes "isAbsolute homedir"
  shows "isSubPath wd (resolvePreviewRoot homedir)
           (resolveTargetDir (resolvePreviewRoot homedir) branch)
       \<and> prefix (path_key wd (resolvePreviewRoot homedir))
           (path_key wd (resolveTargetDir (resolvePreviewRoot homedir) branch))"
proof -
  have r: "path_resolve wd (resolvePreviewRoot homedir) = CHR ''/'' # join_sep (root_key homedir)"
    by (simp add: resolvePreviewRoot_eq[OF assms] path_resolve_rendered root_key_good)
  have t: "path_resolve wd (resolveTargetDir (resolvePreviewRoot homedir) branch)
             = CHR ''/'' # join_sep (target_key homedir branch)"
    by (simp only: resolveTargetDir_eq[OF assms] path_resolve_rendered[OF target_key_good])
  have "isSubPath wd (resolvePreviewRoot homedir)
          (resolveTargetDir (resolvePreviewRoot homedir) branch)"
    unfolding isSubPath_def Let_def r t
    using rendered_prefix[OF root_key_good(2) target_key_prefix, of homedir branch] .
  moreover have "prefix (path_key wd (resolvePreviewRoot homedir))
           (path_key wd (resolveTargetDir (resolvePreviewRoot homedir) branch))"
  proof -
    have "path_key wd (resolveTargetDir (resolvePreviewRoot homedir) branch)
            = target_key homedir branch"
      by (simp only: resolveTargetDir_eq[OF assms] path_key_rendered[OF target_key_good])
    moreover have "path_key wd (resolvePreviewRoot homedir) = root_key homedir"
      by (simp only: resolvePreviewRoot_eq[OF assms] path_key_rendered[OF root_key_good(1)])
    ultimately show ?thesis by (simp only: target_key_prefix)
  qed
  ultimately show ?thesis by simp
qed



































lemma publish_never_path_escape:
  assumes "isAbsolute homedir"
  shows "fst (publishCurrentBranch wd homedir port scopeDir dotgit branch scope fs) \<noteq> Inl PathEscape"
proof -
  have sub: "isSubPath wd (resolvePreviewRoot homedir)
               (resolveTargetDir (resolvePreviewRoot homedir) branch)"
    using target_within_preview_root[OF assms] by blast
  show ?thesis
    unfolding publishCurrentBranch_def Let_def
    by (auto simp: sub split: prod.splits option.splits)
qed

text \<open>
  C9. With an absolute home directory, for every branch name: the target directory passes
  the check \<^verbatim>\<open>isSubPath\<close> of the publisher, the segments of the resolved preview root
  are a prefix of those of the resolved target directory (it is the root or lies below
  it), and the publish never fails with the path-escape error.
\<close>

theorem publish_target_inside_root:
  assumes "isAbsolute homedir"
  shows "isSubPath wd (resolvePreviewRoot homedir)
           (resolveTargetDir (resolvePreviewRoot homedir) branch)
       \<and> prefix (path_key wd (resolvePreviewRoot homedir))
           (path_key wd (resolveTargetDir (resolvePreviewRoot homedir) branch))
       \<and> fst (publishCurrentBranch wd homedir port scopeDir dotgit branch scope fs)
           \<noteq> Inl PathEscape"
  using target_within_preview_root[OF assms, of wd branch]
    publish_never_path_escape[OF assms, of wd port scopeDir dotgit branch scope fs]
  by blast

lemmas demo_defs = demo_fs_def feature_tree_def published_fs_def main_tree_def
  preview_in_tree_def preview_tree_def other_checked_out_def other_tree_def first_tree_def



theorem publish_target_inside_root_witness:
  "isAbsolute ''/home/u''
   \<and> resolveTargetDir (resolvePreviewRoot ''/home/u'') ''../../etc''
       = ''/home/u/.cache/mcp-goose/www/.preview/.._.._etc''
   \<and> isSubPath ''/srv'' (resolvePreviewRoot ''/home/u'')
         (resolveTargetDir (resolvePreviewRoot ''/home/u'') ''../../etc'')
   \<and> fst (publishCurrentBranch ''/srv'' ''/home/u'' ''3003'' ''/srv/app'' demo_fs ''../../etc''
            feature_tree demo_fs) \<noteq> Inl PathEscape"
proof -
  have a: "isAbsolute ''/home/u''" by (simp add: isAbsolute_def)
  have t: "resolveTargetDir (resolvePreviewRoot ''/home/u'') ''../../etc''
             = ''/home/u/.cache/mcp-goose/www/.preview/.._.._etc''"
    by (simp add: path_defs slug_char_def)
  from publish_target_inside_root[OF a, of "''/srv''" "''../../etc''" "''3003''" "''/srv/app''"
      demo_fs feature_tree demo_fs] a t
  show ?thesis by blast
qed


section \<open>Publisher: what a publish changes\<close>




text \<open>
  The slug of a branch named \<^verbatim>\<open>..\<close> is \<^verbatim>\<open>..\<close>, and \<^verbatim>\<open>path.join\<close> takes the
  target directory back to the preview root, which passes \<^verbatim>\<open>isSubPath\<close>: the publish
  replaces the top-level files of the root and removes the previews of all branches.
\<close>

lemma publish_dotdot_clears_root:
  "other_checked_out [''home'', ''u'', ''.cache'', ''mcp-goose'', ''www'', ''index.html''] = Some (File ''m'')
   \<and> snd (publishCurrentBranch ''/srv'' ''/home/u'' ''3003'' ''/srv/app'' other_checked_out ''..''
            other_tree other_checked_out) [''home'', ''u'', ''.cache'', ''mcp-goose'', ''www'', ''index.html'']
     = Some (File ''dd'')
   \<and> other_checked_out [''home'', ''u'', ''.cache'', ''mcp-goose'', ''www'', ''.preview'', ''feature_x'', ''index.html''] = Some (File ''old'')
   \<and> snd (publishCurrentBranch ''/srv'' ''/home/u'' ''3003'' ''/srv/app'' other_checked_out ''..''
            other_tree other_checked_out) [''home'', ''u'', ''.cache'', ''mcp-goose'', ''www'', ''.preview'', ''feature_x'', ''index.html'']
     = None"
proof -
  have c1: "snd (publishCurrentBranch ''/srv'' ''/home/u'' ''3003'' ''/srv/app'' other_checked_out ''..''
            other_tree other_checked_out) [''home'', ''u'', ''.cache'', ''mcp-goose'', ''www'', ''index.html'']
     = Some (File ''dd'')"
    by (simp add: demo_defs path_defs fs_defs)
  have c2: "snd (publishCurrentBranch ''/srv'' ''/home/u'' ''3003'' ''/srv/app'' other_checked_out ''..''
            other_tree other_checked_out) [''home'', ''u'', ''.cache'', ''mcp-goose'', ''www'', ''.preview'', ''feature_x'', ''index.html'']
     = None"
    by (simp add: demo_defs path_defs fs_defs)
  have d: "other_checked_out [''home'', ''u'', ''.cache'', ''mcp-goose'', ''www'', ''index.html''] = Some (File ''m'')" "other_checked_out [''home'', ''u'', ''.cache'', ''mcp-goose'', ''www'', ''.preview'', ''feature_x'', ''index.html''] = Some (File ''old'')"
    by (simp_all add: demo_defs)
  show ?thesis
    using c1 c2 d by (intro conjI)
qed

end
